theory Spec2Isabelle
  imports Main "HOL-Library.Sublist"
begin

section \<open>Strings of the program\<close>

text \<open>
  Python strings are modelled as \<^typ>\<open>string\<close>. The program only ever compares characters
  with the dollar sign, the backslash and the line feed, all of them ASCII, so nothing it
  does depends on how any other character is encoded.
\<close>

abbreviation dollar :: char where
  "dollar \<equiv> CHR ''$''"

abbreviation backslash :: char where
  "backslash \<equiv> CHR 0x5C"

abbreviation newline :: char where
  "newline \<equiv> CHR 0x0A"

text \<open>
  \<^verbatim>\<open>text.split('\n')\<close>: the pieces between line feeds, in order. The first argument is
  the piece being read. The result is never empty: the empty text has the one piece \<open>''''\<close>.
\<close>

fun split_from :: "string \<Rightarrow> string \<Rightarrow> string list" where
  "split_from cur [] = [cur]"
| "split_from cur (c # cs) =
     (if c = newline then cur # split_from [] cs else split_from (cur @ [c]) cs)"

definition split_nl :: "string \<Rightarrow> string list" where
  "split_nl text = split_from [] text"

text \<open>\<^verbatim>\<open>'\n'.join(formatted_lines)\<close>: a line feed between neighbours, none at the ends.\<close>

fun join_nl :: "string list \<Rightarrow> string" where
  "join_nl [] = []"
| "join_nl [l] = l"
| "join_nl (l # ls) = l @ newline # join_nl ls"

text \<open>\<^verbatim>\<open>'$$' in line\<close>: two dollar signs next to each other somewhere in the line.\<close>

fun contains_dd :: "string \<Rightarrow> bool" where
  "contains_dd (a # b # cs) = ((a = dollar \<and> b = dollar) \<or> contains_dd (b # cs))"
| "contains_dd _ = False"

section \<open>The display formatter: \<^verbatim>\<open>format_latex\<close>\<close>

text \<open>
  The body of the inner loop \<^verbatim>\<open>for i, char in enumerate(line)\<close>. The state is the pair of
  the loop's two variables, \<^verbatim>\<open>in_math\<close> and \<^verbatim>\<open>new_line\<close>. The index \<open>i - 1\<close> is only read
  when \<open>i\<close> is not zero, so it lies inside the line. Both arms of the conditional
  expression that picks the marker are the same text in the source, and are kept so.
\<close>

fun scan_step :: "string \<Rightarrow> bool \<times> string \<Rightarrow> nat \<times> char \<Rightarrow> bool \<times> string" where
  "scan_step line (in_math, new_line) (i, c) =
     (if c = dollar \<and> (i = 0 \<or> line ! (i - 1) \<noteq> backslash)
      then (let in_math' = \<not> in_math
            in (in_math', new_line @ (if in_math' then ''$$'' else ''$$'')))
      else (in_math, new_line @ [c]))"

text \<open>The loop's state after its first \<open>n\<close> rounds, from \<^verbatim>\<open>in_math = False\<close> and \<^verbatim>\<open>new_line = ''\<close>.\<close>

definition scan_upto :: "string \<Rightarrow> nat \<Rightarrow> bool \<times> string" where
  "scan_upto line n = foldl (scan_step line) (False, []) (take n (enumerate 0 line))"

definition scan_line :: "string \<Rightarrow> bool \<times> string" where
  "scan_line line = foldl (scan_step line) (False, []) (enumerate 0 line)"

text \<open>
  The body of the outer loop: what is appended to \<^verbatim>\<open>formatted_lines\<close> for one line. A line
  with \<open>$$\<close> in it is appended as it is (the \<^verbatim>\<open>continue\<close> branch).
\<close>

definition format_line :: "string \<Rightarrow> string" where
  "format_line line = (if contains_dd line then line else snd (scan_line line))"

definition format_latex :: "string \<Rightarrow> string" where
  "format_latex text = join_nl (map format_line (split_nl text))"

text \<open>
  The formatter as the specification words it, for lines without \<open>$$\<close>: position by
  position, a dollar sign that has no backslash right before it becomes the marker \<open>$$\<close>,
  and every other character stays.
\<close>

definition spec_marker_at :: "string \<Rightarrow> nat \<Rightarrow> string" where
  "spec_marker_at line i =
     (if line ! i = dollar \<and> \<not> (0 < i \<and> line ! (i - 1) = backslash) then ''$$''
      else [line ! i])"

definition spec_inline :: "string \<Rightarrow> string" where
  "spec_inline line = concat (map (spec_marker_at line) [0..<length line])"

section \<open>The history assembler\<close>

text \<open>
  A message is the dictionary \<^verbatim>\<open>{"role": ..., "content": ...}\<close>. A turn of the history is
  a pair of the user's text and the assistant's text, which may be \<^verbatim>\<open>None\<close>.
\<close>

record message =
  role :: string
  content :: string

type_synonym turn = "string \<times> string option"

text \<open>
  \<^verbatim>\<open>if assistant:\<close> holds for a string that is not empty; \<^verbatim>\<open>None\<close> and the empty
  string fail it.
\<close>

fun truthy :: "string option \<Rightarrow> bool" where
  "truthy None = False"
| "truthy (Some a) = (a \<noteq> [])"

text \<open>One round of \<^verbatim>\<open>for human, assistant in history\<close>, on the list \<^verbatim>\<open>messages\<close>.\<close>

fun history_step :: "message list \<Rightarrow> turn \<Rightarrow> message list" where
  "history_step messages (human, assistant) =
     (let messages = messages @ [\<lparr>role = ''user'', content = human\<rparr>]
      in if truthy assistant
         then messages @ [\<lparr>role = ''assistant'', content = the assistant\<rparr>]
         else messages)"

definition build_messages :: "string \<Rightarrow> turn list \<Rightarrow> message list" where
  "build_messages msg history =
     foldl history_step [] history @ [\<lparr>role = ''user'', content = msg\<rparr>]"

text \<open>
  How many messages the loop has appended when it comes to the turn at position \<open>j\<close>: the
  position in \<^verbatim>\<open>messages\<close> at which that turn's user message is put.
\<close>

definition messages_before :: "turn list \<Rightarrow> nat \<Rightarrow> nat" where
  "messages_before history j = length (foldl history_step [] (take j history))"

text \<open>
  The assembler as the specification words it: per turn a user message, then the
  assistant's message when its text is present, and the new user message at the end.
\<close>

fun spec_turn_messages :: "turn \<Rightarrow> message list" where
  "spec_turn_messages (human, assistant) =
     \<lparr>role = ''user'', content = human\<rparr> #
     (case assistant of
        None \<Rightarrow> []
      | Some a \<Rightarrow> (if a = [] then [] else [\<lparr>role = ''assistant'', content = a\<rparr>]))"

definition spec_messages :: "string \<Rightarrow> turn list \<Rightarrow> message list" where
  "spec_messages msg history =
     concat (map spec_turn_messages history) @ [\<lparr>role = ''user'', content = msg\<rparr>]"

section \<open>Request orchestration: \<^verbatim>\<open>chat_with_deepseek\<close>\<close>

text \<open>
  An exception, with the text \<^verbatim>\<open>str(e)\<close> gives for it. \<open>Exn\<close> is an instance of
  \<^verbatim>\<open>Exception\<close>: what the client library raises for a failed call, and what indexing,
  attribute access and unpacking raise. \<open>BaseExn\<close> is an instance of \<^verbatim>\<open>BaseException\<close> that
  is not an instance of \<^verbatim>\<open>Exception\<close>, such as \<^verbatim>\<open>KeyboardInterrupt\<close> or \<^verbatim>\<open>SystemExit\<close>: the
  clause \<^verbatim>\<open>except Exception\<close> does not catch it.
\<close>

datatype exn = Exn string | BaseExn string

text \<open>
  The response object as far as the program reads it: the list \<^verbatim>\<open>choices\<close>, and in a choice
  the two fields of its message, each a string or \<^verbatim>\<open>None\<close>.
\<close>

record choice =
  reasoning_content :: "string option"
  answer_content :: "string option"

record response =
  choices :: "choice list"

text \<open>\<^verbatim>\<open>response.choices[0]\<close> raises \<^verbatim>\<open>IndexError\<close> on an empty list.\<close>

definition first_choice :: "response \<Rightarrow> exn + choice" where
  "first_choice r =
     (case choices r of
        [] \<Rightarrow> Inl (Exn ''list index out of range'')
      | ch # _ \<Rightarrow> Inr ch)"

text \<open>
  \<^verbatim>\<open>format_latex\<close> applied to a field: on \<^verbatim>\<open>None\<close> the call \<^verbatim>\<open>text.split\<close> raises
  \<^verbatim>\<open>AttributeError\<close>.
\<close>

definition format_field :: "string option \<Rightarrow> exn + string" where
  "format_field t =
     (case t of
        None \<Rightarrow> Inl (Exn (CHR 0x27 # ''NoneType'' @ CHR 0x27 # '' object has no attribute '' @
                         CHR 0x27 # ''split'' @ [CHR 0x27]))
      | Some text \<Rightarrow> Inr (format_latex text))"

text \<open>The two headings of the returned text; each starts with an emoji, given in UTF-8.\<close>

definition reasoning_heading :: string where
  "reasoning_heading = [CHR 0xF0, CHR 0x9F, CHR 0xA4, CHR 0x94] @ '' Reasoning:'' @ [newline]"

definition answer_heading :: string where
  "answer_heading = [CHR 0xF0, CHR 0x9F, CHR 0x93, CHR 0x9D] @ '' Answer:'' @ [newline]"

text \<open>
  The body of the \<^verbatim>\<open>try\<close> block. The call \<^verbatim>\<open>client.chat.completions.create\<close> belongs to
  the client library, so it is the parameter \<open>create\<close>: from the messages it gives a
  response or raises.
\<close>

definition try_body :: "(message list \<Rightarrow> exn + response) \<Rightarrow> message list \<Rightarrow> exn + string" where
  "try_body create messages =
     (case create messages of
        Inl e \<Rightarrow> Inl e
      | Inr resp \<Rightarrow>
          (case first_choice resp of
             Inl e \<Rightarrow> Inl e
           | Inr ch \<Rightarrow>
               (case format_field (reasoning_content ch) of
                  Inl e \<Rightarrow> Inl e
                | Inr reasoning \<Rightarrow>
                    (case format_field (answer_content ch) of
                       Inl e \<Rightarrow> Inl e
                     | Inr answer \<Rightarrow>
                         Inr (reasoning_heading @ reasoning @ [newline, newline] @
                              answer_heading @ answer)))))"

text \<open>
  An item of the history as the function may be handed it. The user interface hands over
  pairs of the user's text and the assistant's text, which may be \<^verbatim>\<open>None\<close>; but the loop
  unpacks whatever sequence it finds, so any other sequence of strings is an item too.
\<close>

datatype item = Pair string "string option" | Seq "string list"

text \<open>
  The target \<^verbatim>\<open>human, assistant\<close> of the loop: a sequence of two values is unpacked, any
  other raises \<^verbatim>\<open>ValueError\<close>, with the text CPython gives it.
\<close>

fun unpack_item :: "item \<Rightarrow> exn + turn" where
  "unpack_item (Pair human assistant) = Inr (human, assistant)"
| "unpack_item (Seq []) = Inl (Exn ''not enough values to unpack (expected 2, got 0)'')"
| "unpack_item (Seq [v]) = Inl (Exn ''not enough values to unpack (expected 2, got 1)'')"
| "unpack_item (Seq [human, assistant]) = Inr (human, Some assistant)"
| "unpack_item (Seq (v # w # x # rest)) = Inl (Exn ''too many values to unpack (expected 2)'')"

text \<open>
  The loop \<^verbatim>\<open>for human, assistant in history\<close> on such a history: it stops with the
  exception at the first item that does not unpack, and goes through \<open>history_step\<close> for
  every item that does.
\<close>

fun assemble_loop :: "message list \<Rightarrow> item list \<Rightarrow> exn + message list" where
  "assemble_loop messages [] = Inr messages"
| "assemble_loop messages (it # rest) =
     (case unpack_item it of
        Inl e \<Rightarrow> Inl e
      | Inr t \<Rightarrow> assemble_loop (history_step messages t) rest)"

text \<open>
  The whole function. The loop and the last \<^verbatim>\<open>append\<close> stand before the \<^verbatim>\<open>try\<close> block, so
  what the loop raises leaves the function. The handler \<^verbatim>\<open>except Exception as e\<close> turns an
  instance of \<^verbatim>\<open>Exception\<close> raised in the block into a text; any other exception leaves the
  function. An exception that leaves the function is the value \<open>Inl\<close>.
\<close>

definition chat_with_deepseek ::
    "(message list \<Rightarrow> exn + response) \<Rightarrow> string \<Rightarrow> item list \<Rightarrow> exn + string" where
  "chat_with_deepseek create msg history =
     (case assemble_loop [] history of
        Inl e \<Rightarrow> Inl e
      | Inr messages \<Rightarrow>
          (let messages = messages @ [\<lparr>role = ''user'', content = msg\<rparr>]
           in case try_body create messages of
                Inl (Exn text) \<Rightarrow> Inr (''Error: '' @ text)
              | Inl (BaseExn text) \<Rightarrow> Inl (BaseExn text)
              | Inr shown \<Rightarrow> Inr shown))"

text \<open>
  Two ways the call of the API can go, for the examples: the transport fails with the text
  \<open>timeout\<close>; the call is interrupted from the keyboard (\<^verbatim>\<open>str(KeyboardInterrupt())\<close> is the
  empty text).
\<close>

definition api_times_out :: "message list \<Rightarrow> exn + response" where
  "api_times_out messages = Inl (Exn ''timeout'')"

definition api_interrupted :: "message list \<Rightarrow> exn + response" where
  "api_interrupted messages = Inl (BaseExn [])"

section \<open>Start of the process\<close>






section \<open>Facts about the strings\<close>

subsection \<open>The test for \<open>$$\<close>\<close>

lemma contains_dd_append: "contains_dd (p @ dollar # dollar # s)"
proof (induction p)
  case Nil
  show ?case by simp
next
  case (Cons x p)
  then show ?case by (cases p) simp_all
qed

lemma contains_dd_decompose: "contains_dd l \<Longrightarrow> \<exists>p s. l = p @ dollar # dollar # s"
proof (induction l rule: contains_dd.induct)
  case (1 a b cs)
  show ?case
  proof (cases "a = dollar \<and> b = dollar")
    case True
    then have "a # b # cs = [] @ dollar # dollar # cs" by simp
    then show ?thesis by blast
  next
    case False
    with 1 obtain p s where "b # cs = p @ dollar # dollar # s" by auto
    then have "a # b # cs = (a # p) @ dollar # dollar # s" by simp
    then show ?thesis by blast
  qed
qed simp_all

lemma contains_dd_sublist: "contains_dd l \<longleftrightarrow> sublist ''$$'' l"
proof
  assume "contains_dd l"
  then obtain p s where "l = p @ ''$$'' @ s" using contains_dd_decompose by fastforce
  then show "sublist ''$$'' l" unfolding sublist_def by blast
next
  assume "sublist ''$$'' l"
  then obtain p s where "l = p @ ''$$'' @ s" unfolding sublist_def by blast
  then show "contains_dd l" using contains_dd_append [of p s] by simp
qed

subsection \<open>Splitting into lines and joining them\<close>

lemma split_from_append:
  "newline \<notin> set l \<Longrightarrow> split_from cur (l @ rest) = split_from (cur @ l) rest"
  by (induction l arbitrary: cur) auto

lemma split_from_not_Nil: "split_from cur cs \<noteq> []"
  by (induction cs arbitrary: cur) auto

lemma length_split_from:
  "length (split_from cur cs) = Suc (length (filter (\<lambda>c. c = newline) cs))"
  by (induction cs arbitrary: cur) auto

lemma split_from_no_newline:
  "newline \<notin> set cur \<Longrightarrow> \<forall>l \<in> set (split_from cur cs). newline \<notin> set l"
proof (induction cs arbitrary: cur)
  case Nil
  then show ?case by simp
next
  case (Cons c cs)
  show ?case
  proof (cases "c = newline")
    case True
    then show ?thesis using Cons.IH [of "[]"] Cons.prems by simp
  next
    case False
    then show ?thesis using Cons.IH [of "cur @ [c]"] Cons.prems by simp
  qed
qed

lemma join_nl_Cons: "ls \<noteq> [] \<Longrightarrow> join_nl (l # ls) = l @ newline # join_nl ls"
  by (cases ls) simp_all

lemma join_split_from: "join_nl (split_from cur cs) = cur @ cs"
proof (induction cs arbitrary: cur)
  case Nil
  show ?case by simp
next
  case (Cons c cs)
  show ?case
    by (cases "c = newline") (simp_all add: Cons.IH join_nl_Cons split_from_not_Nil)
qed

lemma split_from_join:
  "ls \<noteq> [] \<Longrightarrow> \<forall>l \<in> set ls. newline \<notin> set l \<Longrightarrow>
     split_from cur (join_nl ls) = (cur @ hd ls) # tl ls"
proof (induction ls arbitrary: cur)
  case Nil
  then show ?case by simp
next
  case (Cons l ls)
  show ?case
  proof (cases ls)
    case Nil
    then show ?thesis using split_from_append [of l cur "[]"] Cons.prems by simp
  next
    case (Cons l' ls')
    have "split_from cur (join_nl (l # ls)) = split_from cur (l @ newline # join_nl ls)"
      using Cons by simp
    also have "\<dots> = split_from (cur @ l) (newline # join_nl ls)"
      using Cons.prems by (simp add: split_from_append)
    also have "\<dots> = (cur @ l) # split_from [] (join_nl ls)" by simp
    also have "split_from [] (join_nl ls) = ([] @ hd ls) # tl ls"
      using Cons.IH [of "[]"] Cons.prems Cons by simp
    finally show ?thesis using Cons by simp
  qed
qed

lemma split_nl_join:
  "ls \<noteq> [] \<Longrightarrow> \<forall>l \<in> set ls. newline \<notin> set l \<Longrightarrow> split_nl (join_nl ls) = ls"
  by (simp add: split_nl_def split_from_join)

lemma join_split_nl: "join_nl (split_nl text) = text"
  by (simp add: split_nl_def join_split_from)

lemma split_nl_not_Nil: "split_nl text \<noteq> []"
  by (simp add: split_nl_def split_from_not_Nil)

lemma length_split_nl: "length (split_nl text) = Suc (length (filter (\<lambda>c. c = newline) text))"
  by (simp add: split_nl_def length_split_from)

lemma split_nl_no_newline: "l \<in> set (split_nl text) \<Longrightarrow> newline \<notin> set l"
  using split_from_no_newline [of "[]" "text"] by (simp add: split_nl_def)

lemma split_nl_single: "newline \<notin> set line \<Longrightarrow> split_nl line = [line]"
  using split_from_append [of line "[]" "[]"] by (simp add: split_nl_def)

section \<open>Facts about the display formatter\<close>

lemma scan_step_cases:
  "scan_step line st (i, c) =
     (if c = dollar \<and> (i = 0 \<or> line ! (i - 1) \<noteq> backslash)
      then (\<not> fst st, snd st @ ''$$'') else (fst st, snd st @ [c]))"
  by (cases st) (simp add: Let_def)

lemma scan_step_marker:
  "i < length line \<Longrightarrow> snd (scan_step line st (i, line ! i)) = snd st @ spec_marker_at line i"
  by (auto simp add: scan_step_cases spec_marker_at_def)

lemma enumerate_nth_upt: "enumerate 0 line = map (\<lambda>i. (i, line ! i)) [0..<length line]"
  by (rule nth_equalityI) (simp_all add: nth_enumerate_eq)

lemma take_enumerate_upt:
  "n \<le> length line \<Longrightarrow> take n (enumerate 0 line) = map (\<lambda>i. (i, line ! i)) [0..<n]"
  by (simp add: enumerate_nth_upt take_map)

lemma snd_foldl_scan_step:
  "\<forall>i \<in> set js. i < length line \<Longrightarrow>
     snd (foldl (scan_step line) st (map (\<lambda>i. (i, line ! i)) js)) =
       snd st @ concat (map (spec_marker_at line) js)"
proof (induction js arbitrary: st)
  case Nil
  show ?case by simp
next
  case (Cons j js)
  then show ?case by (simp add: scan_step_marker)
qed

lemma snd_scan_upto:
  "n \<le> length line \<Longrightarrow> snd (scan_upto line n) = concat (map (spec_marker_at line) [0..<n])"
  using snd_foldl_scan_step [of "[0..<n]" line "(False, [])"]
  by (simp add: scan_upto_def take_enumerate_upt)

lemma scan_upto_all: "scan_upto line (length line) = scan_line line"
  by (simp add: scan_upto_def scan_line_def)

lemma snd_scan_line: "snd (scan_line line) = spec_inline line"
  using snd_scan_upto [of "length line" line] by (simp add: scan_upto_all spec_inline_def)

lemma scan_upto_Suc:
  "i < length line \<Longrightarrow> scan_upto line (Suc i) = scan_step line (scan_upto line i) (i, line ! i)"
  by (simp add: scan_upto_def take_Suc_conv_app_nth nth_enumerate_eq)

lemma spec_inline_split:
  assumes "i < length line"
  shows "spec_inline line =
       concat (map (spec_marker_at line) [0..<i]) @ spec_marker_at line i @
       concat (map (spec_marker_at line) [Suc i..<length line])"
proof -
  have "[0..<i + (length line - i)] = [0..<i] @ [i..<i + (length line - i)]"
    by (rule upt_add_eq_append) simp
  then have "[0..<length line] = [0..<i] @ i # [Suc i..<length line]"
    using assms by (simp add: upt_conv_Cons)
  then show ?thesis by (simp add: spec_inline_def)
qed

lemma spec_marker_at_cases: "spec_marker_at line i = ''$$'' \<or> spec_marker_at line i = [line ! i]"
  by (simp add: spec_marker_at_def)

lemma spec_inline_copy:
  assumes "\<forall>i < length line. spec_marker_at line i = [line ! i]"
  shows "spec_inline line = line"
proof -
  have "map (spec_marker_at line) [0..<length line] = map (\<lambda>i. [line ! i]) [0..<length line]"
    using assms by simp
  then have "spec_inline line = concat (map (\<lambda>i. [line ! i]) [0..<length line])"
    by (simp only: spec_inline_def)
  also have "\<dots> = map (\<lambda>i. line ! i) [0..<length line]"
    by (rule concat_map_singleton)
  also have "\<dots> = line" by (rule map_nth)
  finally show ?thesis .
qed

lemma set_spec_marker_at: "set (spec_marker_at line i) \<subseteq> {dollar, line ! i}"
  by (auto simp add: spec_marker_at_def)

lemma set_spec_inline: "set (spec_inline line) \<subseteq> insert dollar (set line)"
  using set_spec_marker_at by (fastforce simp add: spec_inline_def)

lemma spec_inline_fixed_or_marked: "spec_inline line = line \<or> contains_dd (spec_inline line)"
proof (cases "\<exists>i < length line. spec_marker_at line i = ''$$''")
  case True
  then obtain i where i: "i < length line" "spec_marker_at line i = ''$$''" by blast
  show ?thesis
    using spec_inline_split [OF i(1)] contains_dd_append by (simp add: i(2))
next
  case False
  then have "\<forall>i < length line. spec_marker_at line i = [line ! i]"
    using spec_marker_at_cases by blast
  then show ?thesis by (simp add: spec_inline_copy)
qed

lemma format_line_spec: "\<not> contains_dd line \<Longrightarrow> format_line line = spec_inline line"
  by (simp add: format_line_def snd_scan_line)

lemma format_line_idem: "format_line (format_line line) = format_line line"
proof (cases "contains_dd line")
  case True
  then show ?thesis by (simp add: format_line_def)
next
  case False
  then have eq: "format_line line = spec_inline line" by (rule format_line_spec)
  from spec_inline_fixed_or_marked [of line] have "format_line (spec_inline line) = spec_inline line"
  proof
    assume "spec_inline line = line"
    then show ?thesis using eq by simp
  next
    assume "contains_dd (spec_inline line)"
    then show ?thesis by (simp add: format_line_def)
  qed
  then show ?thesis by (simp only: eq)
qed

lemma format_line_no_newline: "newline \<notin> set line \<Longrightarrow> newline \<notin> set (format_line line)"
  using set_spec_inline [of line] by (auto simp add: format_line_def snd_scan_line)

lemma split_format_latex: "split_nl (format_latex txt) = map format_line (split_nl txt)"
  unfolding format_latex_def
  by (rule split_nl_join) (auto simp add: split_nl_not_Nil dest: split_nl_no_newline format_line_no_newline)

lemma no_dollar_no_dd: "dollar \<notin> set line \<Longrightarrow> \<not> contains_dd line"
  using contains_dd_decompose [of line] by auto

lemma format_line_no_dollar: "dollar \<notin> set line \<Longrightarrow> format_line line = line"
proof -
  assume nd: "dollar \<notin> set line"
  then have "\<forall>i < length line. line ! i \<noteq> dollar"
    using nth_mem by fastforce
  then have "\<forall>i < length line. spec_marker_at line i = [line ! i]"
    by (simp add: spec_marker_at_def)
  then have "spec_inline line = line" by (rule spec_inline_copy)
  then show ?thesis using nd by (simp add: format_line_spec no_dollar_no_dd)
qed

lemma set_join_nl: "l \<in> set ls \<Longrightarrow> set l \<subseteq> set (join_nl ls)"
  by (induction ls rule: join_nl.induct) auto

lemma split_nl_subset: "l \<in> set (split_nl t) \<Longrightarrow> set l \<subseteq> set t"
  using set_join_nl [of l "split_nl t"] by (simp add: join_split_nl)

lemma format_latex_no_dollar: "dollar \<notin> set t \<Longrightarrow> format_latex t = t"
proof -
  assume nd: "dollar \<notin> set t"
  have "\<forall>l \<in> set (split_nl t). format_line l = l"
    using nd split_nl_subset format_line_no_dollar by blast
  then have "map format_line (split_nl t) = split_nl t" by (simp add: map_idI)
  then show ?thesis by (simp add: format_latex_def join_split_nl)
qed

lemma scan_upto_escaped:
  assumes "i < length line" "0 < i" "line ! i = dollar" "line ! (i - 1) = backslash"
  shows "scan_upto line (Suc i) = (fst (scan_upto line i), snd (scan_upto line i) @ [dollar])"
  using assms by (simp add: scan_upto_Suc scan_step_cases)

lemma scan_upto_converted:
  assumes "i < length line" "line ! i = dollar" "i = 0 \<or> line ! (i - 1) \<noteq> backslash"
  shows "scan_upto line (Suc i) = (\<not> fst (scan_upto line i), snd (scan_upto line i) @ ''$$'')"
  using assms by (auto simp add: scan_upto_Suc scan_step_cases)

lemma spec_inline_escaped:
  assumes "i < length line" "0 < i" "line ! i = dollar" "line ! (i - 1) = backslash"
  shows "spec_inline line =
     concat (map (spec_marker_at line) [0..<i - 1]) @ [backslash, dollar] @
     concat (map (spec_marker_at line) [Suc i..<length line])"
proof -
  have a: "spec_marker_at line i = [dollar]" using assms by (simp add: spec_marker_at_def)
  have b: "spec_marker_at line (i - 1) = [backslash]" using assms by (simp add: spec_marker_at_def)
  have "[0..<i] = [0..<i - 1] @ [i - 1]" using assms(2) by (cases i) simp_all
  then show ?thesis using spec_inline_split [OF assms(1)] a b by simp
qed

lemma sublist_escaped:
  assumes "i < length line" "0 < i" "line ! i = dollar" "line ! (i - 1) = backslash"
  shows "sublist [backslash, dollar] (format_line line)"
proof (cases "contains_dd line")
  case True
  have "line = take (i - 1) line @ line ! (i - 1) # drop i line"
    using assms id_take_nth_drop [of "i - 1" line] by simp
  also have "drop i line = line ! i # drop (Suc i) line"
    using assms Cons_nth_drop_Suc [of i line] by simp
  finally have "line = take (i - 1) line @ [backslash, dollar] @ drop (Suc i) line"
    using assms by simp
  then have "sublist [backslash, dollar] line" unfolding sublist_def by blast
  then show ?thesis using True by (simp add: format_line_def)
next
  case False
  then show ?thesis
    unfolding sublist_def using spec_inline_escaped [OF assms] by (auto simp add: format_line_spec)
qed

section \<open>Facts about the history assembler\<close>

lemma foldl_history_step:
  "foldl history_step acc history = acc @ concat (map spec_turn_messages history)"
proof (induction history arbitrary: acc)
  case Nil
  show ?case by simp
next
  case (Cons t ts)
  obtain human assistant where t: "t = (human, assistant)" by (cases t)
  show ?case
    by (cases assistant) (simp_all add: t Cons.IH Let_def)
qed

lemma build_messages_spec: "build_messages msg history = spec_messages msg history"
  by (simp add: build_messages_def spec_messages_def foldl_history_step)

lemma length_turns:
  "length (concat (map spec_turn_messages history)) =
     2 * length (filter (\<lambda>t. truthy (snd t)) history) +
     length (filter (\<lambda>t. snd t = None \<or> snd t = Some []) history)"
proof (induction history)
  case Nil
  show ?case by simp
next
  case (Cons t ts)
  obtain human assistant where t: "t = (human, assistant)" by (cases t)
  show ?case
    by (cases assistant) (simp_all add: t Cons.IH)
qed


lemma user_messages_of_turns:
  "filter (\<lambda>m. role m = ''user'') (concat (map spec_turn_messages history)) =
     map (\<lambda>t. \<lparr>role = ''user'', content = fst t\<rparr>) history"
proof (induction history)
  case Nil
  show ?case by simp
next
  case (Cons t ts)
  obtain human assistant where t: "t = (human, assistant)" by (cases t)
  show ?case by (cases assistant) (simp_all add: t Cons.IH)
qed

lemma assistant_messages_of_turns:
  "filter (\<lambda>m. role m = ''assistant'') (concat (map spec_turn_messages history)) =
     map (\<lambda>t. \<lparr>role = ''assistant'', content = the (snd t)\<rparr>)
       (filter (\<lambda>t. truthy (snd t)) history)"
proof (induction history)
  case Nil
  show ?case by simp
next
  case (Cons t ts)
  obtain human assistant where t: "t = (human, assistant)" by (cases t)
  show ?case by (cases assistant) (simp_all add: t Cons.IH)
qed

lemma roles_of_turns:
  "m \<in> set (concat (map spec_turn_messages history)) \<Longrightarrow>
     role m = ''user'' \<or> role m = ''assistant''"
proof (induction history)
  case Nil
  then show ?case by simp
next
  case (Cons t ts)
  obtain human assistant where t: "t = (human, assistant)" by (cases t)
  from Cons show ?case by (cases assistant) (auto simp add: t split: if_splits)
qed

lemma messages_before_spec:
  "messages_before history j = length (concat (map spec_turn_messages (take j history)))"
  by (simp add: messages_before_def foldl_history_step)

lemma spec_turn_messages_snd:
  "truthy (snd t) \<Longrightarrow>
     spec_turn_messages t = [\<lparr>role = ''user'', content = fst t\<rparr>,
                             \<lparr>role = ''assistant'', content = the (snd t)\<rparr>]"
  by (cases t; cases "snd t") auto

lemma spec_turn_messages_only_user:
  "\<not> truthy (snd t) \<Longrightarrow> spec_turn_messages t = [\<lparr>role = ''user'', content = fst t\<rparr>]"
  by (cases t; cases "snd t") auto

lemma turn_position:
  assumes "j < length history"
  shows "(concat (map spec_turn_messages history) @ rest) ! messages_before history j =
           \<lparr>role = ''user'', content = fst (history ! j)\<rparr> \<and>
         (truthy (snd (history ! j)) \<longrightarrow>
           (concat (map spec_turn_messages history) @ rest) ! Suc (messages_before history j) =
             \<lparr>role = ''assistant'', content = the (snd (history ! j))\<rparr>)"
proof -
  let ?pre = "concat (map spec_turn_messages (take j history))"
  let ?post = "concat (map spec_turn_messages (drop (Suc j) history)) @ rest"
  have "history = take j history @ history ! j # drop (Suc j) history"
    using assms by (rule id_take_nth_drop)
  then have "concat (map spec_turn_messages history) =
      ?pre @ spec_turn_messages (history ! j) @ concat (map spec_turn_messages (drop (Suc j) history))"
    by (metis concat.simps(2) concat_append list.simps(9) map_append)
  then have eq: "concat (map spec_turn_messages history) @ rest =
      ?pre @ spec_turn_messages (history ! j) @ ?post"
    by simp
  have len: "messages_before history j = length ?pre" by (rule messages_before_spec)
  show ?thesis
  proof (cases "truthy (snd (history ! j))")
    case True
    have "spec_turn_messages (history ! j) =
        [\<lparr>role = ''user'', content = fst (history ! j)\<rparr>,
         \<lparr>role = ''assistant'', content = the (snd (history ! j))\<rparr>]"
      using True by (rule spec_turn_messages_snd)
    then show ?thesis by (simp add: eq len nth_append)
  next
    case False
    have "spec_turn_messages (history ! j) = [\<lparr>role = ''user'', content = fst (history ! j)\<rparr>]"
      using False by (rule spec_turn_messages_only_user)
    then show ?thesis using False by (simp add: eq len nth_append)
  qed
qed

lemma assistant_position:
  "i < length (concat (map spec_turn_messages history)) \<Longrightarrow>
   role (concat (map spec_turn_messages history) ! i) = ''assistant'' \<Longrightarrow>
   \<exists>j < length history. truthy (snd (history ! j)) \<and> i = Suc (messages_before history j)"
proof (induction history arbitrary: i rule: rev_induct)
  case Nil
  then show ?case by simp
next
  case (snoc t hs)
  let ?xs = "concat (map spec_turn_messages hs)"
  have cat: "concat (map spec_turn_messages (hs @ [t])) = ?xs @ spec_turn_messages t" by simp
  show ?case
  proof (cases "i < length ?xs")
    case True
    then have "role (?xs ! i) = ''assistant''" using snoc.prems(2) by (simp add: nth_append)
    with snoc.IH True obtain j where j: "j < length hs" "truthy (snd (hs ! j))"
      "i = Suc (messages_before hs j)" by blast
    then have "j < length (hs @ [t]) \<and> truthy (snd ((hs @ [t]) ! j)) \<and>
        i = Suc (messages_before (hs @ [t]) j)"
      by (simp add: nth_append messages_before_def)
    then show ?thesis by blast
  next
    case False
    have mb: "messages_before (hs @ [t]) (length hs) = length ?xs"
      by (simp add: messages_before_spec)
    show ?thesis
    proof (cases "truthy (snd t)")
      case True
      then have "i = Suc (length ?xs)"
        using False snoc.prems by (auto simp add: nth_append spec_turn_messages_snd less_Suc_eq)
      then show ?thesis using True mb by auto
    next
      case nt: False
      then have "False"
        using False snoc.prems by (auto simp add: nth_append spec_turn_messages_only_user)
      then show ?thesis ..
    qed
  qed
qed

section \<open>Facts about the orchestration\<close>

lemma assemble_loop_unpacked:
  "map unpack_item history = map Inr turns \<Longrightarrow>
     assemble_loop acc history = Inr (foldl history_step acc turns)"
proof (induction history arbitrary: acc turns)
  case Nil
  then show ?case by simp
next
  case (Cons it rest)
  then obtain t ts where ts: "turns = t # ts" by (cases turns) auto
  with Cons.prems have "unpack_item it = Inr t" "map unpack_item rest = map Inr ts" by simp_all
  then show ?case using Cons.IH [of ts "history_step acc t"] by (simp add: ts)
qed

lemma assemble_loop_raises:
  "map unpack_item pre = map Inr turns \<Longrightarrow> unpack_item it = Inl e \<Longrightarrow>
     assemble_loop acc (pre @ it # post) = Inl e"
proof (induction pre arbitrary: acc turns)
  case Nil
  then show ?case by simp
next
  case (Cons p pre)
  then obtain t ts where ts: "turns = t # ts" by (cases turns) auto
  with Cons.prems have "unpack_item p = Inr t" "map unpack_item pre = map Inr ts" by simp_all
  then show ?case using Cons.IH [of ts "history_step acc t"] Cons.prems(2) by simp
qed

lemma chat_with_deepseek_unpacked:
  "map unpack_item history = map Inr turns \<Longrightarrow>
     chat_with_deepseek create msg history =
       (case try_body create (build_messages msg turns) of
          Inl e \<Rightarrow> (case e of Exn t \<Rightarrow> Inr (''Error: '' @ t) | BaseExn t \<Rightarrow> Inl (BaseExn t))
        | Inr shown \<Rightarrow> Inr shown)"
  by (simp add: chat_with_deepseek_def assemble_loop_unpacked build_messages_def Let_def
      split: sum.splits exn.splits)

lemma try_body_raises:
  "create messages = Inl e \<Longrightarrow> try_body create messages = Inl e"
  by (simp add: try_body_def)

lemma try_body_base:
  "try_body create messages = Inl (BaseExn t) \<Longrightarrow> create messages = Inl (BaseExn t)"
  by (auto simp add: try_body_def first_choice_def format_field_def
      split: sum.splits list.splits option.splits)

section \<open>The claims about the history assembler\<close>

text \<open>
  C1. For every history and every new message, the assembled list has \<open>2 * k + a + 1\<close>
  messages, where \<open>k\<close> counts the turns whose assistant text is present and not empty and
  \<open>a\<close> counts the turns whose assistant text is absent or empty. Its user messages are one
  per turn, with the turn's user text, in order, and then one with the new text; its assistant
  messages are one per turn whose assistant text is present and not empty, with that text, in
  order; it has no other message; its last message is the user message with the new text; and
  it is the list the specification describes.
\<close>

theorem assembler_length:
  "length (build_messages msg history) =
     2 * length (filter (\<lambda>t. truthy (snd t)) history) +
     length (filter (\<lambda>t. snd t = None \<or> snd t = Some []) history) + 1 \<and>
   filter (\<lambda>m. role m = ''user'') (build_messages msg history) =
     map (\<lambda>t. \<lparr>role = ''user'', content = fst t\<rparr>) history @
     [\<lparr>role = ''user'', content = msg\<rparr>] \<and>
   filter (\<lambda>m. role m = ''assistant'') (build_messages msg history) =
     map (\<lambda>t. \<lparr>role = ''assistant'', content = the (snd t)\<rparr>)
       (filter (\<lambda>t. truthy (snd t)) history) \<and>
   length (filter (\<lambda>m. role m = ''user'') (build_messages msg history)) = length history + 1 \<and>
   length (filter (\<lambda>m. role m = ''assistant'') (build_messages msg history)) =
     length (filter (\<lambda>t. truthy (snd t)) history) \<and>
   length (filter (\<lambda>m. role m \<noteq> ''user'' \<and> role m \<noteq> ''assistant'')
     (build_messages msg history)) = 0 \<and>
   last (build_messages msg history) = \<lparr>role = ''user'', content = msg\<rparr> \<and>
   build_messages msg history = spec_messages msg history"
proof -
  let ?xs = "concat (map spec_turn_messages history)"
  let ?u = "\<lparr>role = ''user'', content = msg\<rparr>"
  have out: "build_messages msg history = ?xs @ [?u]"
    by (simp add: build_messages_def foldl_history_step)
  have a: "length (build_messages msg history) =
     2 * length (filter (\<lambda>t. truthy (snd t)) history) +
     length (filter (\<lambda>t. snd t = None \<or> snd t = Some []) history) + 1"
    by (simp add: out length_turns)
  have b: "filter (\<lambda>m. role m = ''user'') (build_messages msg history) =
     map (\<lambda>t. \<lparr>role = ''user'', content = fst t\<rparr>) history @ [?u]"
    by (simp add: out user_messages_of_turns)
  have c: "filter (\<lambda>m. role m = ''assistant'') (build_messages msg history) =
     map (\<lambda>t. \<lparr>role = ''assistant'', content = the (snd t)\<rparr>)
       (filter (\<lambda>t. truthy (snd t)) history)"
    by (simp add: out assistant_messages_of_turns)
  have d: "length (filter (\<lambda>m. role m = ''user'') (build_messages msg history)) =
      length history + 1"
    by (simp only: b) simp
  have e: "length (filter (\<lambda>m. role m = ''assistant'') (build_messages msg history)) =
     length (filter (\<lambda>t. truthy (snd t)) history)"
    by (simp only: c) simp
  have "\<forall>m \<in> set (build_messages msg history). role m = ''user'' \<or> role m = ''assistant''"
    using roles_of_turns by (auto simp add: out)
  then have "filter (\<lambda>m. role m \<noteq> ''user'' \<and> role m \<noteq> ''assistant'')
     (build_messages msg history) = []"
    by (auto simp add: filter_empty_conv)
  then have f: "length (filter (\<lambda>m. role m \<noteq> ''user'' \<and> role m \<noteq> ''assistant'')
     (build_messages msg history)) = 0"
    by simp
  have g: "last (build_messages msg history) = ?u" by (simp add: out)
  have h: "build_messages msg history = spec_messages msg history" by (rule build_messages_spec)
  from a b c d e f g h show ?thesis by blast
qed

theorem assembler_length_witness:
  "length (build_messages ''q'' [(''Hi'', Some ''Hello!''), (''a'', None), (''b'', Some [])]) = 5 \<and>
   filter (\<lambda>m. role m = ''assistant'')
     (build_messages ''q'' [(''Hi'', Some ''Hello!''), (''a'', None), (''b'', Some [])]) =
     [\<lparr>role = ''assistant'', content = ''Hello!''\<rparr>] \<and>
   length (filter (\<lambda>m. role m = ''user'')
     (build_messages ''q'' [(''Hi'', Some ''Hello!''), (''a'', None), (''b'', Some [])])) = 4 \<and>
   last (build_messages ''q'' [(''Hi'', Some ''Hello!''), (''a'', None), (''b'', Some [])]) =
     \<lparr>role = ''user'', content = ''q''\<rparr>"
  using assembler_length [of "''q''" "[(''Hi'', Some ''Hello!''), (''a'', None), (''b'', Some [])]"]
  by (simp add: spec_messages_def)

text \<open>
  C2. The assembled list keeps the order of the turns and their structure. It is the list
  the specification describes; the user message of the turn at position \<open>j\<close> stands where the
  loop had got to, and the assistant's message of that turn, when there is one, right after
  it; every assistant message of the list is such a message, with the user message of its own
  turn right before it; the last message is the user message with the new text. For the
  history \<open>[("Hi", "Hello!")]\<close> and the new text \<open>What is 2+2?\<close> the list is the user message
  \<open>Hi\<close>, the assistant message \<open>Hello!\<close> and the user message \<open>What is 2+2?\<close>.
\<close>

theorem assembler_order:
  "build_messages msg history = spec_messages msg history \<and>
   last (build_messages msg history) = \<lparr>role = ''user'', content = msg\<rparr> \<and>
   (\<forall>j < length history.
      build_messages msg history ! messages_before history j =
        \<lparr>role = ''user'', content = fst (history ! j)\<rparr> \<and>
      (truthy (snd (history ! j)) \<longrightarrow>
         build_messages msg history ! Suc (messages_before history j) =
           \<lparr>role = ''assistant'', content = the (snd (history ! j))\<rparr>)) \<and>
   (\<forall>i < length (build_messages msg history).
      role (build_messages msg history ! i) = ''assistant'' \<longrightarrow>
        (\<exists>j < length history.
           i = Suc (messages_before history j) \<and>
           build_messages msg history ! (i - 1) =
             \<lparr>role = ''user'', content = fst (history ! j)\<rparr> \<and>
           snd (history ! j) = Some (content (build_messages msg history ! i)))) \<and>
   build_messages ''What is 2+2?'' [(''Hi'', Some ''Hello!'')] =
     [\<lparr>role = ''user'', content = ''Hi''\<rparr>, \<lparr>role = ''assistant'', content = ''Hello!''\<rparr>,
      \<lparr>role = ''user'', content = ''What is 2+2?''\<rparr>]"
proof (intro conjI allI impI)
  let ?xs = "concat (map spec_turn_messages history)"
  let ?u = "\<lparr>role = ''user'', content = msg\<rparr>"
  have out: "build_messages msg history = ?xs @ [?u]"
    by (simp add: build_messages_def foldl_history_step)
  show "build_messages msg history = spec_messages msg history" by (rule build_messages_spec)
  show "last (build_messages msg history) = ?u" by (simp add: build_messages_def)
  {
    fix j
    assume j: "j < length history"
    from turn_position [OF j, of "[?u]"]
    show "build_messages msg history ! messages_before history j =
        \<lparr>role = ''user'', content = fst (history ! j)\<rparr>"
      by (simp only: out)
    assume "truthy (snd (history ! j))"
    with turn_position [OF j, of "[?u]"]
    show "build_messages msg history ! Suc (messages_before history j) =
           \<lparr>role = ''assistant'', content = the (snd (history ! j))\<rparr>"
      by (simp only: out)
  }
  {
    fix i
    assume i: "i < length (build_messages msg history)"
      and r: "role (build_messages msg history ! i) = ''assistant''"
    have "i \<noteq> length ?xs" using r by (auto simp add: out)
    with i have lt: "i < length ?xs" by (simp add: out)
    then have "role (?xs ! i) = ''assistant''" using r by (simp add: out nth_append)
    with lt obtain j where j: "j < length history" "truthy (snd (history ! j))"
      "i = Suc (messages_before history j)" using assistant_position by blast
    from turn_position [OF j(1), of "[?u]"] j(2)
    have p: "build_messages msg history ! messages_before history j =
          \<lparr>role = ''user'', content = fst (history ! j)\<rparr>"
       "build_messages msg history ! Suc (messages_before history j) =
          \<lparr>role = ''assistant'', content = the (snd (history ! j))\<rparr>"
      by (simp_all only: out)
    from j(2) have "snd (history ! j) = Some (the (snd (history ! j)))"
      by (cases "snd (history ! j)") simp_all
    then have "snd (history ! j) = Some (content (build_messages msg history ! i))"
      using p(2) j(3) by simp
    then show "\<exists>j < length history.
           i = Suc (messages_before history j) \<and>
           build_messages msg history ! (i - 1) =
             \<lparr>role = ''user'', content = fst (history ! j)\<rparr> \<and>
           snd (history ! j) = Some (content (build_messages msg history ! i))"
      using j p(1) by auto
  }
  show "build_messages ''What is 2+2?'' [(''Hi'', Some ''Hello!'')] =
     [\<lparr>role = ''user'', content = ''Hi''\<rparr>, \<lparr>role = ''assistant'', content = ''Hello!''\<rparr>,
      \<lparr>role = ''user'', content = ''What is 2+2?''\<rparr>]"
    by (simp add: build_messages_def)
qed

theorem assembler_order_witness:
  "build_messages ''q'' [(''a'', None), (''b'', Some ''c'')] ! 1 = \<lparr>role = ''user'', content = ''b''\<rparr> \<and>
   build_messages ''q'' [(''a'', None), (''b'', Some ''c'')] ! 2 =
     \<lparr>role = ''assistant'', content = ''c''\<rparr> \<and>
   last (build_messages ''q'' [(''a'', None), (''b'', Some ''c'')]) = \<lparr>role = ''user'', content = ''q''\<rparr>"
proof -
  let ?h = "[(''a'', None), (''b'', Some ''c'')] :: turn list"
  have a: "messages_before ?h (Suc 0) = Suc 0" by (simp add: messages_before_def)
  have j: "1 < length ?h" by simp
  have t: "truthy (snd (?h ! 1))" by simp
  from assembler_order [of "''q''" ?h] j
  have "build_messages ''q'' ?h ! messages_before ?h 1 =
          \<lparr>role = ''user'', content = fst (?h ! 1)\<rparr> \<and>
        (truthy (snd (?h ! 1)) \<longrightarrow>
           build_messages ''q'' ?h ! Suc (messages_before ?h 1) =
             \<lparr>role = ''assistant'', content = the (snd (?h ! 1))\<rparr>)"
    by blast
  with t have "build_messages ''q'' ?h ! 1 = \<lparr>role = ''user'', content = ''b''\<rparr> \<and>
      build_messages ''q'' ?h ! 2 = \<lparr>role = ''assistant'', content = ''c''\<rparr>"
    by (simp add: a eval_nat_numeral)
  moreover from assembler_order [of "''q''" ?h]
  have "last (build_messages ''q'' ?h) = \<lparr>role = ''user'', content = ''q''\<rparr>" by blast
  ultimately show ?thesis by blast
qed

section \<open>The claims about the display formatter\<close>

text \<open>
  C3. On a line without \<open>$$\<close> the formatter puts the marker \<open>$$\<close> in place of every dollar
  sign that has no backslash right before it, the same marker whether the span opens or
  closes, and copies every other character. This holds for the body of the loop and for every
  line of a text given to \<^verbatim>\<open>format_latex\<close>. The line \<open>The value $x$ is positive\<close> becomes
  \<open>The value $$x$$ is positive\<close>.
\<close>

theorem inline_conversion:
  "(\<not> contains_dd line \<longrightarrow> format_line line = spec_inline line) \<and>
   (\<forall>i < length (split_nl txt). \<not> contains_dd (split_nl txt ! i) \<longrightarrow>
      split_nl (format_latex txt) ! i = spec_inline (split_nl txt ! i)) \<and>
   format_latex ''The value $x$ is positive'' = ''The value $$x$$ is positive''"
proof (intro conjI allI impI)
  assume "\<not> contains_dd line"
  then show "format_line line = spec_inline line" by (rule format_line_spec)
next
  fix i
  assume "i < length (split_nl txt)" and "\<not> contains_dd (split_nl txt ! i)"
  then show "split_nl (format_latex txt) ! i = spec_inline (split_nl txt ! i)"
    by (simp add: split_format_latex format_line_spec)
next
  show "format_latex ''The value $x$ is positive'' = ''The value $$x$$ is positive''"
    by (simp add: format_latex_def split_nl_def format_line_def scan_line_def)
qed

theorem inline_conversion_witness:
  "\<not> contains_dd ''a$b'' \<and> format_line ''a$b'' = ''a$$b'' \<and>
   split_nl (format_latex (''$x'' @ [newline] @ ''y$'')) ! 1 = ''y$$''"
proof -
  have a: "\<not> contains_dd ''a$b''" by simp
  have b: "split_nl (''$x'' @ [newline] @ ''y$'') = [''$x'', ''y$'']" by (simp add: split_nl_def)
  have c: "spec_inline ''a$b'' = ''a$$b''" by (simp add: spec_inline_def spec_marker_at_def upt_rec)
  have d: "spec_inline ''y$'' = ''y$$''" by (simp add: spec_inline_def spec_marker_at_def upt_rec)
  show ?thesis
    using inline_conversion [of "''a$b''" "''$x'' @ [newline] @ ''y$''"] a b c d
    by simp
qed

text \<open>
  C4. A line with \<open>$$\<close> in it comes back as it is, so formatting it twice gives what
  formatting it once gives. This holds for the body of the loop, for a text that is one such
  line, and for every such line of a longer text. The line \<open>$$x^2$$ is a square\<close> comes
  back unchanged.
\<close>

theorem block_line_passes_through:
  "(contains_dd line \<longrightarrow>
      format_line line = line \<and> format_line (format_line line) = format_line line) \<and>
   (contains_dd line \<and> newline \<notin> set line \<longrightarrow>
      format_latex line = line \<and> format_latex (format_latex line) = format_latex line) \<and>
   (\<forall>i < length (split_nl txt). contains_dd (split_nl txt ! i) \<longrightarrow>
      split_nl (format_latex txt) ! i = split_nl txt ! i) \<and>
   format_latex ''$$x^2$$ is a square'' = ''$$x^2$$ is a square''"
proof (intro conjI allI impI)
  assume "contains_dd line"
  then show "format_line line = line" by (simp add: format_line_def)
next
  assume "contains_dd line"
  then show "format_line (format_line line) = format_line line" by (simp add: format_line_def)
next
  assume "contains_dd line \<and> newline \<notin> set line"
  then show "format_latex line = line"
    by (simp add: format_latex_def split_nl_single format_line_def)
  then show "format_latex (format_latex line) = format_latex line" by simp
next
  fix i
  assume "i < length (split_nl txt)" and "contains_dd (split_nl txt ! i)"
  then show "split_nl (format_latex txt) ! i = split_nl txt ! i"
    by (simp add: split_format_latex format_line_def)
next
  show "format_latex ''$$x^2$$ is a square'' = ''$$x^2$$ is a square''"
    by (simp add: format_latex_def split_nl_def format_line_def)
qed

theorem block_line_passes_through_witness:
  "contains_dd ''a$$b$'' \<and> newline \<notin> set ''a$$b$'' \<and>
   format_line ''a$$b$'' = ''a$$b$'' \<and> format_latex ''a$$b$'' = ''a$$b$'' \<and>
   format_latex (format_latex ''a$$b$'') = format_latex ''a$$b$'' \<and>
   split_nl (format_latex (''$x'' @ [newline] @ ''a$$b$'')) ! 1 = ''a$$b$''"
proof -
  have a: "contains_dd ''a$$b$''" by simp
  have b: "newline \<notin> set ''a$$b$''" by simp
  have c: "split_nl (''$x'' @ [newline] @ ''a$$b$'') = [''$x'', ''a$$b$'']"
    by (simp add: split_nl_def)
  show ?thesis
    using block_line_passes_through [of "''a$$b$''" "''$x'' @ [newline] @ ''a$$b$''"] a b c
    by simp
qed

text \<open>
  C8. \<^verbatim>\<open>format_latex\<close> splits the text at line feeds, formats each line by itself and joins
  the results with line feeds: the lines of the output are the formatted lines of the input,
  one for one, so the number of lines and the number of line feeds stay the same. A line
  without any dollar sign, and a text without any, comes back unchanged.
\<close>

theorem lines_are_formatted_one_by_one:
  "format_latex txt = join_nl (map format_line (split_nl txt)) \<and>
   split_nl (format_latex txt) = map format_line (split_nl txt) \<and>
   length (split_nl (format_latex txt)) = length (split_nl txt) \<and>
   length (filter (\<lambda>c. c = newline) (format_latex txt)) = length (filter (\<lambda>c. c = newline) txt) \<and>
   (dollar \<notin> set line \<longrightarrow> format_line line = line) \<and>
   (dollar \<notin> set txt \<longrightarrow> format_latex txt = txt)"
proof (intro conjI impI)
  show "format_latex txt = join_nl (map format_line (split_nl txt))"
    by (simp add: format_latex_def)
  show s: "split_nl (format_latex txt) = map format_line (split_nl txt)"
    by (rule split_format_latex)
  then show l: "length (split_nl (format_latex txt)) = length (split_nl txt)" by simp
  then show "length (filter (\<lambda>c. c = newline) (format_latex txt)) =
      length (filter (\<lambda>c. c = newline) txt)"
    by (simp add: length_split_nl)
next
  assume "dollar \<notin> set line"
  then show "format_line line = line" by (rule format_line_no_dollar)
next
  assume "dollar \<notin> set txt"
  then show "format_latex txt = txt" by (rule format_latex_no_dollar)
qed

theorem lines_are_formatted_one_by_one_witness:
  "split_nl (format_latex (''a$b'' @ [newline] @ ''c'')) = [''a$$b'', ''c''] \<and>
   length (filter (\<lambda>c. c = newline) (format_latex (''a$b'' @ [newline] @ ''c''))) = 1 \<and>
   dollar \<notin> set ''xyz'' \<and> format_line ''xyz'' = ''xyz''"
proof -
  have a: "split_nl (''a$b'' @ [newline] @ ''c'') = [''a$b'', ''c'']" by (simp add: split_nl_def)
  have b: "format_line ''a$b'' = ''a$$b''" by (simp add: format_line_def scan_line_def)
  have c: "dollar \<notin> set ''xyz''" by simp
  have d: "format_line ''c'' = ''c''" by (simp add: format_line_def scan_line_def)
  show ?thesis
    using lines_are_formatted_one_by_one [of "''a$b'' @ [newline] @ ''c''" "''xyz''"] a b c d
    by (simp add: split_nl_def)
qed

text \<open>
  C9. \<^verbatim>\<open>format_latex\<close> is idempotent on every text: a line in which a dollar sign was
  converted has \<open>$$\<close> in it afterwards and passes through the second time, and a line in
  which none was converted is returned as it is.
\<close>

theorem format_latex_idempotent: "format_latex (format_latex s) = format_latex s"
proof -
  have "format_latex (format_latex s) = join_nl (map format_line (split_nl (format_latex s)))"
    by (simp add: format_latex_def)
  also have "\<dots> = join_nl (map format_line (map format_line (split_nl s)))"
    by (simp only: split_format_latex)
  also have "\<dots> = join_nl (map format_line (split_nl s))"
    by (simp add: format_line_idem comp_def)
  finally show ?thesis by (simp add: format_latex_def)
qed

theorem format_latex_idempotent_witness:
  "format_latex (format_latex (''a$b'' @ [newline] @ ''$c'')) = ''a$$b'' @ [newline] @ ''$$c''"
proof -
  have "format_latex (''a$b'' @ [newline] @ ''$c'') = ''a$$b'' @ [newline] @ ''$$c''"
    by (simp add: format_latex_def split_nl_def format_line_def scan_line_def)
  then show ?thesis
    using format_latex_idempotent [of "''a$b'' @ [newline] @ ''$c''"] by simp
qed

text \<open>
  C5. In every line, a dollar sign with a backslash right before it is copied as it is by
  the round of the loop that reads it, and that round leaves \<^verbatim>\<open>in_math\<close> as it was; the
  two characters, backslash and dollar sign, stand next to each other in the formatted line.
  The text \<open>Price: \$5\<close> comes back with \<open>\$5\<close> in it, unchanged.
\<close>

theorem escaped_dollar_is_copied:
  "(i < length line \<and> 0 < i \<and> line ! i = dollar \<and> line ! (i - 1) = backslash \<longrightarrow>
      scan_upto line (Suc i) = (fst (scan_upto line i), snd (scan_upto line i) @ [dollar]) \<and>
      sublist [backslash, dollar] (format_line line)) \<and>
   format_latex (''Price: '' @ [backslash] @ ''$5'') = ''Price: '' @ [backslash] @ ''$5''"
proof (intro conjI impI)
  assume h: "i < length line \<and> 0 < i \<and> line ! i = dollar \<and> line ! (i - 1) = backslash"
  then show "scan_upto line (Suc i) = (fst (scan_upto line i), snd (scan_upto line i) @ [dollar])"
    by (simp add: scan_upto_escaped)
  from h show "sublist [backslash, dollar] (format_line line)"
    using sublist_escaped [of i line] by simp
next
  show "format_latex (''Price: '' @ [backslash] @ ''$5'') = ''Price: '' @ [backslash] @ ''$5''"
    by (simp add: format_latex_def split_nl_def format_line_def scan_line_def)
qed

theorem escaped_dollar_is_copied_witness:
  "scan_upto (''$a'' @ [backslash] @ ''$'') 3 = (True, ''$$a'' @ [backslash]) \<and>
   scan_upto (''$a'' @ [backslash] @ ''$'') 4 = (True, ''$$a'' @ [backslash] @ ''$'') \<and>
   sublist [backslash, dollar] (format_line (''$a'' @ [backslash] @ ''$''))"
proof -
  have a: "scan_upto (''$a'' @ [backslash] @ ''$'') 3 = (True, ''$$a'' @ [backslash])"
    by (simp add: scan_upto_def eval_nat_numeral)
  show ?thesis
    using escaped_dollar_is_copied [of 3 "''$a'' @ [backslash] @ ''$''"] a
    by (simp add: eval_nat_numeral)
qed

text \<open>
  C10. The escape test reads only the one character before the dollar sign, in the line as
  it was given. In a line without \<open>$$\<close>, a dollar sign at a position \<open>i > 0\<close> with a backslash
  at \<open>i - 1\<close> stays a single dollar sign in the output, whatever stands before that
  backslash: two backslashes and a dollar sign come back unchanged. A dollar sign at position
  \<open>0\<close> sets \<^verbatim>\<open>in_math\<close> and becomes the marker \<open>$$\<close>.
\<close>

theorem escape_test_reads_one_character:
  "(\<not> contains_dd line \<and> i < length line \<and> 0 < i \<and> line ! i = dollar \<and>
    line ! (i - 1) = backslash \<longrightarrow>
      spec_marker_at line i = [dollar] \<and>
      format_line line =
        snd (scan_upto line i) @ [dollar] @
        concat (map (spec_marker_at line) [Suc i..<length line])) \<and>
   (\<not> contains_dd line \<and> line \<noteq> [] \<and> line ! 0 = dollar \<longrightarrow>
      scan_upto line 1 = (True, ''$$'') \<and>
      format_line line = ''$$'' @ concat (map (spec_marker_at line) [1..<length line])) \<and>
   format_latex [backslash, backslash, dollar] = [backslash, backslash, dollar]"
proof (intro conjI impI)
  assume h: "\<not> contains_dd line \<and> i < length line \<and> 0 < i \<and> line ! i = dollar \<and>
    line ! (i - 1) = backslash"
  then show m: "spec_marker_at line i = [dollar]" by (simp add: spec_marker_at_def)
  from h have "format_line line = spec_inline line" by (simp add: format_line_spec)
  also have "\<dots> = concat (map (spec_marker_at line) [0..<i]) @ spec_marker_at line i @
       concat (map (spec_marker_at line) [Suc i..<length line])"
    using h by (simp add: spec_inline_split)
  finally show "format_line line =
        snd (scan_upto line i) @ [dollar] @
        concat (map (spec_marker_at line) [Suc i..<length line])"
    using h m by (simp add: snd_scan_upto)
next
  assume h: "\<not> contains_dd line \<and> line \<noteq> [] \<and> line ! 0 = dollar"
  then have l: "0 < length line" by simp
  have z: "scan_upto line 0 = (False, [])" by (simp add: scan_upto_def)
  show "scan_upto line 1 = (True, ''$$'')"
    using scan_upto_converted [of 0 line] h l z by simp
  have "spec_marker_at line 0 = ''$$''" using h by (simp add: spec_marker_at_def)
  then show "format_line line = ''$$'' @ concat (map (spec_marker_at line) [1..<length line])"
    using spec_inline_split [OF l] h by (simp add: format_line_spec)
next
  show "format_latex [backslash, backslash, dollar] = [backslash, backslash, dollar]"
    by (simp add: format_latex_def split_nl_def format_line_def scan_line_def)
qed

theorem escape_test_reads_one_character_witness:
  "format_line ([backslash, backslash] @ ''$x'') = [backslash, backslash] @ ''$x'' \<and>
   scan_upto ''$x'' 1 = (True, ''$$'') \<and> format_line ''$x'' = ''$$x''"
proof -
  have a: "\<not> contains_dd ([backslash, backslash] @ ''$x'')" by simp
  have b: "snd (scan_upto ([backslash, backslash] @ ''$x'') 2) = [backslash, backslash]"
    by (simp add: scan_upto_def eval_nat_numeral)
  have c: "concat (map (spec_marker_at ([backslash, backslash] @ ''$x'')) [3..<4]) = ''x''"
    by (simp add: spec_marker_at_def upt_rec)
  have d: "concat (map (spec_marker_at ''$x'') [1..<2]) = ''x''"
    by (simp add: spec_marker_at_def upt_rec)
  show ?thesis
    using escape_test_reads_one_character [of "[backslash, backslash] @ ''$x''" 2]
      escape_test_reads_one_character [of "''$x''" 0] a b c d
    by (simp add: eval_nat_numeral)
qed

section \<open>The claims about the orchestration and the start of the process\<close>

text \<open>
  C6, as the claim states it, fails on the program. An exception that is not an instance of
  \<^verbatim>\<open>Exception\<close> passes the handler: a call of the API interrupted from the keyboard makes
  \<^verbatim>\<open>chat_with_deepseek\<close> raise. And the loop over the history stands before the \<^verbatim>\<open>try\<close>
  block: an item that is not a sequence of two values makes the function raise
  \<^verbatim>\<open>ValueError\<close>.
\<close>

theorem api_failure_counterexample:
  "chat_with_deepseek api_interrupted ''Hi'' [] = Inl (BaseExn []) \<and>
   chat_with_deepseek api_times_out ''Hi'' [Seq [''Hi'']] =
     Inl (Exn ''not enough values to unpack (expected 2, got 1)'')"
  by (simp add: chat_with_deepseek_def try_body_def api_interrupted_def)

text \<open>
  C6, amended. Let every item of the history unpack into a turn. When the call to the
  inference API raises an instance of \<^verbatim>\<open>Exception\<close>, and likewise when anything else in the
  \<^verbatim>\<open>try\<close> block does, \<^verbatim>\<open>chat_with_deepseek\<close> returns the text \<open>Error: \<close> followed by the
  exception's message; a call that raises with the message \<open>timeout\<close> gives
  \<open>Error: timeout\<close>. An exception of the call that is not an instance of \<^verbatim>\<open>Exception\<close>
  leaves the function, and it is the only one that does: when the call raises no such
  exception, the function returns a text. When an item of the history does not unpack, and
  the items before it do, the function raises what the unpacking raises.
\<close>

theorem api_failure_becomes_text:
  "(map unpack_item history = map Inr turns \<longrightarrow>
      (create (build_messages msg turns) = Inl (Exn t) \<longrightarrow>
         chat_with_deepseek create msg history = Inr (''Error: '' @ t)) \<and>
      (try_body create (build_messages msg turns) = Inl (Exn t) \<longrightarrow>
         chat_with_deepseek create msg history = Inr (''Error: '' @ t)) \<and>
      (create (build_messages msg turns) = Inl (BaseExn t) \<longrightarrow>
         chat_with_deepseek create msg history = Inl (BaseExn t)) \<and>
      ((\<forall>b. create (build_messages msg turns) \<noteq> Inl (BaseExn b)) \<longrightarrow>
         (\<exists>shown. chat_with_deepseek create msg history = Inr shown)) \<and>
      chat_with_deepseek api_times_out msg history = Inr ''Error: timeout'') \<and>
   (map unpack_item pre = map Inr earlier \<and> unpack_item it = Inl e \<longrightarrow>
      chat_with_deepseek create msg (pre @ it # post) = Inl e)"
proof (intro conjI impI)
  assume u: "map unpack_item history = map Inr turns"
  note chat = chat_with_deepseek_unpacked [OF u]
  {
    assume "create (build_messages msg turns) = Inl (Exn t)"
    then have "try_body create (build_messages msg turns) = Inl (Exn t)"
      by (rule try_body_raises)
    then show "chat_with_deepseek create msg history = Inr (''Error: '' @ t)"
      by (simp add: chat)
  }
  {
    assume "try_body create (build_messages msg turns) = Inl (Exn t)"
    then show "chat_with_deepseek create msg history = Inr (''Error: '' @ t)"
      by (simp add: chat)
  }
  {
    assume "create (build_messages msg turns) = Inl (BaseExn t)"
    then have "try_body create (build_messages msg turns) = Inl (BaseExn t)"
      by (rule try_body_raises)
    then show "chat_with_deepseek create msg history = Inl (BaseExn t)"
      by (simp add: chat)
  }
  {
    assume nb: "\<forall>b. create (build_messages msg turns) \<noteq> Inl (BaseExn b)"
    show "\<exists>shown. chat_with_deepseek create msg history = Inr shown"
    proof (cases "try_body create (build_messages msg turns)")
      case (Inl e)
      show ?thesis
      proof (cases e)
        case (Exn m)
        with Inl show ?thesis by (simp add: chat)
      next
        case (BaseExn m)
        with Inl have "create (build_messages msg turns) = Inl (BaseExn m)"
          by (simp add: try_body_base)
        with nb show ?thesis by simp
      qed
    next
      case (Inr shown)
      then show ?thesis by (simp add: chat)
    qed
  }
  show "chat_with_deepseek api_times_out msg history = Inr ''Error: timeout''"
    by (simp add: chat_with_deepseek_unpacked [OF u] try_body_def api_times_out_def)
next
  assume "map unpack_item pre = map Inr earlier \<and> unpack_item it = Inl e"
  then have "assemble_loop [] (pre @ it # post) = Inl e"
    using assemble_loop_raises [of pre earlier it e "[]" post] by simp
  then show "chat_with_deepseek create msg (pre @ it # post) = Inl e"
    by (simp add: chat_with_deepseek_def)
qed

theorem api_failure_becomes_text_witness:
  "chat_with_deepseek api_times_out ''What is 2+2?'' [Pair ''Hi'' (Some ''Hello!'')] =
     Inr ''Error: timeout'' \<and>
   chat_with_deepseek api_interrupted ''What is 2+2?'' [Pair ''Hi'' (Some ''Hello!'')] =
     Inl (BaseExn []) \<and>
   chat_with_deepseek api_times_out ''q'' ([Pair ''Hi'' None] @ Seq [''a'', ''b'', ''c''] # []) =
     Inl (Exn ''too many values to unpack (expected 2)'')"
proof -
  let ?h = "[Pair ''Hi'' (Some ''Hello!'')]"
  let ?t = "[(''Hi'', Some ''Hello!'')] :: turn list"
  have u: "map unpack_item ?h = map Inr ?t" by simp
  have a: "api_times_out (build_messages ''What is 2+2?'' ?t) = Inl (Exn ''timeout'')"
    by (simp add: api_times_out_def)
  have b: "api_interrupted (build_messages ''What is 2+2?'' ?t) = Inl (BaseExn [])"
    by (simp add: api_interrupted_def)
  have v: "map unpack_item [Pair ''Hi'' None] = map Inr [(''Hi'', None)]" by simp
  have w: "unpack_item (Seq [''a'', ''b'', ''c'']) =
      Inl (Exn ''too many values to unpack (expected 2)'')" by simp
  from api_failure_becomes_text [of ?h ?t api_times_out "''What is 2+2?''" "''timeout''"] u a
  have "chat_with_deepseek api_times_out ''What is 2+2?'' ?h = Inr ''Error: timeout''" by simp
  moreover
  from api_failure_becomes_text [of ?h ?t api_interrupted "''What is 2+2?''" "[]"] u b
  have "chat_with_deepseek api_interrupted ''What is 2+2?'' ?h = Inl (BaseExn [])" by simp
  moreover
  from api_failure_becomes_text [where create = api_times_out and msg = "''q''"
      and pre = "[Pair ''Hi'' None]" and earlier = "[(''Hi'', None)]"
      and it = "Seq [''a'', ''b'', ''c'']"
      and e = "Exn ''too many values to unpack (expected 2)''" and post = "[]"] v w
  have "chat_with_deepseek api_times_out ''q'' ([Pair ''Hi'' None] @ Seq [''a'', ''b'', ''c''] # []) =
      Inl (Exn ''too many values to unpack (expected 2)'')" by blast
  ultimately show ?thesis by blast
qed




end
